theory Spec2Isabelle
  imports Complex_Main "HOL-Library.Word" "HOL-Library.Multiset"
begin

unbundle bit_operations_syntax

section \<open>Values shared by the audio pipeline\<close>

text \<open>
  Every exception the pipeline can meet is a value. The first four are thrown by the
  host (\<open>atob\<close>, the typed-array constructor, the Web Audio objects), as is
  \<open>IndexSizeError\<close>; \<open>NO_KEY\<close> is the
  \<open>Error("NO_KEY")\<close> that \<open>playTTS\<close> throws itself; \<open>ReferenceError\<close> is the read of
  \<open>process.env\<close> where no \<open>process\<close> object exists; \<open>TransportError\<close> is a rejected
  remote call and \<open>HostError\<close> any other failure of a host object.
\<close>

datatype error =
    InvalidCharacterError
  | RangeError
  | NotSupportedError
  | InvalidStateError
  | NO_KEY
  | ReferenceError
  | IndexSizeError
  | TransportError
  | HostError

text \<open>
  A value of type \<open>string | undefined\<close> is a \<open>string option\<close>. JavaScript's \<open>!v\<close> on
  such a value is true for \<open>undefined\<close> and for the empty string.
\<close>

definition falsy :: "string option \<Rightarrow> bool" where
  "falsy v = (case v of None \<Rightarrow> True | Some s \<Rightarrow> s = [])"

section \<open>The credential check\<close>

text \<open>
  \<open>checkApiKey\<close> reads \<open>process.env.API_KEY\<close> inside a \<open>try\<close>. The read is the
  argument: \<open>Inl e\<close> when the read throws, \<open>Inr None\<close> when the variable is
  \<open>undefined\<close>, \<open>Inr (Some k)\<close> when it holds the string \<open>k\<close>. The \<open>catch\<close> branch
  returns \<open>false\<close>.
\<close>

definition checkApiKey :: "error + string option \<Rightarrow> bool" where
  "checkApiKey API_KEY =
     (case API_KEY of
        Inl e \<Rightarrow> False
      | Inr key \<Rightarrow>
          if falsy key \<or> key = Some ''undefined'' \<or> key = Some [] \<or> length (the key) < 10
          then False
          else True)"

section \<open>Host built-ins of the byte pipeline\<close>

subsection \<open>\<open>atob\<close>\<close>

text \<open>
  \<open>atob\<close> is the browser's function; its result is fixed by the HTML Standard
  (``forgiving-base64 decode''), which is followed here step by step:
  \<^enum> ASCII whitespace (tab, line feed, form feed, carriage return, space) is removed;
  \<^enum> if the length is then a multiple of 4, one or two trailing \<open>=\<close> are removed;
  \<^enum> a length of 1 modulo 4 is a failure;
  \<^enum> a character outside \<open>A-Z a-z 0-9 + /\<close> is a failure;
  \<^enum> every character gives six bits; four characters give three bytes, a rest of
    two characters gives one byte (four bits dropped) and a rest of three characters
    gives two bytes (two bits dropped).
  A failure is the exception \<open>InvalidCharacterError\<close>. The result is a binary string:
  one character per byte. Strings are \<open>string\<close>, whose characters are the code units
  0 to 255; a code unit above 255 is outside the alphabet like any other.
\<close>

definition is_ascii_whitespace :: "char \<Rightarrow> bool" where
  "is_ascii_whitespace c = (of_char c \<in> {9, 10, 12, 13, 32 :: nat})"

definition b64_value :: "char \<Rightarrow> nat option" where
  "b64_value c =
     (let u = (of_char c :: nat) in
      if 65 \<le> u \<and> u \<le> 90 then Some (u - 65)
      else if 97 \<le> u \<and> u \<le> 122 then Some (u - 71)
      else if 48 \<le> u \<and> u \<le> 57 then Some (u + 4)
      else if u = 43 then Some 62
      else if u = 47 then Some 63
      else None)"

definition strip_padding :: "string \<Rightarrow> string" where
  "strip_padding d =
     (if length d mod 4 = 0 \<and> d \<noteq> [] \<and> last d = CHR ''=''
      then (if butlast d \<noteq> [] \<and> last (butlast d) = CHR ''=''
            then butlast (butlast d) else butlast d)
      else d)"

fun b64_groups :: "nat list \<Rightarrow> nat list" where
  "b64_groups (a # b # c # d # rest) =
     (a * 4 + b div 16) # ((b mod 16) * 16 + c div 4) # ((c mod 4) * 64 + d) # b64_groups rest"
| "b64_groups [a, b, c] = [a * 4 + b div 16, (b mod 16) * 16 + c div 4]"
| "b64_groups [a, b] = [a * 4 + b div 16]"
| "b64_groups [a] = []"
| "b64_groups [] = []"

definition atob :: "string \<Rightarrow> error + string" where
  "atob s =
     (let d = strip_padding (filter (\<lambda>c. \<not> is_ascii_whitespace c) s) in
      if length d mod 4 = 1 then Inl InvalidCharacterError
      else if list_ex (\<lambda>c. b64_value c = None) d then Inl InvalidCharacterError
      else Inr (map char_of (b64_groups (map (\<lambda>c. the (b64_value c)) d))))"

subsection \<open>\<open>Uint8Array\<close> and \<open>Int16Array\<close>\<close>

text \<open>
  A \<open>Uint8Array\<close> is a window on an \<open>ArrayBuffer\<close>: the buffer's bytes, the offset of
  the window and its length. \<open>new Uint8Array(n)\<close> makes a fresh zeroed buffer of
  \<open>n\<close> bytes with the window over all of it. A write outside the window is ignored,
  as typed arrays do.
\<close>

record uint8array =
  u8_buffer :: "8 word list"
  u8_byteOffset :: nat
  u8_length :: nat

definition new_Uint8Array :: "nat \<Rightarrow> uint8array" where
  "new_Uint8Array n = \<lparr>u8_buffer = replicate n 0, u8_byteOffset = 0, u8_length = n\<rparr>"

definition u8_set :: "uint8array \<Rightarrow> nat \<Rightarrow> nat \<Rightarrow> uint8array" where
  "u8_set a i v =
     (if i < u8_length a
      then a\<lparr>u8_buffer := (u8_buffer a)[u8_byteOffset a + i := of_nat v]\<rparr>
      else a)"

definition u8_bytes :: "uint8array \<Rightarrow> 8 word list" where
  "u8_bytes a = take (u8_length a) (drop (u8_byteOffset a) (u8_buffer a))"


text \<open>
  \<open>new Int16Array(buffer, byteOffset, length)\<close> throws \<open>RangeError\<close> when the offset
  is odd or the window leaves the buffer. Its elements are read in the byte order of
  the machine, which is little-endian on every platform browsers run on: the low byte
  first, so an element is the 16-bit word \<open>lo + 256 * hi\<close>. Only reads are made of
  it, so it is the list of its elements.
\<close>

definition int16_le :: "8 word \<Rightarrow> 8 word \<Rightarrow> 16 word" where
  "int16_le lo hi = word_of_nat (unat lo + 256 * unat hi)"

definition new_Int16Array :: "8 word list \<Rightarrow> nat \<Rightarrow> nat \<Rightarrow> error + 16 word list" where
  "new_Int16Array buf byteOffset n =
     (if byteOffset mod 2 \<noteq> 0 then Inl RangeError
      else if length buf < byteOffset + 2 * n then Inl RangeError
      else Inr (map (\<lambda>k. int16_le (buf ! (byteOffset + 2 * k)) (buf ! (byteOffset + 2 * k + 1)))
                  [0..<n]))"

subsection \<open>\<open>AudioContext.createBuffer\<close>\<close>

text \<open>
  The Web Audio API fixes \<open>createBuffer(numberOfChannels, length, sampleRate)\<close>: it
  throws \<open>NotSupportedError\<close> when an argument is zero or outside its nominal range
  (``length: the size of the buffer in sample-frames; this must be at least 1''), and
  otherwise returns a buffer of zeros. Every implementation supports 1 to 32 channels
  and rates from 8000 to 96000 Hz; beyond that the ranges differ between browsers and
  the model is the strictest of them. Samples are 32-bit floats; a 16-bit integer
  divided by 32768 is one exactly, so samples are real numbers here.
\<close>

record audio_buffer =
  numberOfChannels :: nat
  ab_length :: nat
  ab_sampleRate :: nat
  ab_channelData :: "real list list"

definition createBuffer :: "nat \<Rightarrow> nat \<Rightarrow> nat \<Rightarrow> error + audio_buffer" where
  "createBuffer numChannels frames rate =
     (if numChannels = 0 \<or> 32 < numChannels \<or> frames = 0 \<or> rate < 8000 \<or> 96000 < rate
      then Inl NotSupportedError
      else Inr \<lparr>numberOfChannels = numChannels, ab_length = frames, ab_sampleRate = rate,
                ab_channelData = replicate numChannels (replicate frames 0)\<rparr>)"

section \<open>The byte decoder and the PCM decoder\<close>

text \<open>
  \<open>decodeBase64\<close>: the loop copies \<open>charCodeAt(i)\<close> into \<open>bytes[i]\<close> for
  \<open>i < binaryString.length\<close>; the \<open>catch\<close> branch returns \<open>new Uint8Array()\<close>.
\<close>

function decodeBase64_loop :: "string \<Rightarrow> nat \<Rightarrow> uint8array \<Rightarrow> uint8array" where
  "decodeBase64_loop binaryString i bytes =
     (if i < length binaryString
      then decodeBase64_loop binaryString (i + 1) (u8_set bytes i (of_char (binaryString ! i)))
      else bytes)"
  by pat_completeness auto
termination
  by (relation "measure (\<lambda>(binaryString, i, bytes). length binaryString - i)") auto

declare decodeBase64_loop.simps [simp del]

definition decodeBase64 :: "string \<Rightarrow> uint8array" where
  "decodeBase64 base64 =
     (case atob base64 of
        Inr binaryString \<Rightarrow>
          decodeBase64_loop binaryString 0 (new_Uint8Array (length binaryString))
      | Inl e \<Rightarrow> new_Uint8Array 0)"

text \<open>
  \<open>decodeAudioData\<close>. \<open>data.length / 2\<close> is truncated by the \<open>Int16Array\<close>
  constructor. \<open>frameCount\<close> is the quotient \<open>dataInt16.length / numChannels\<close> as a
  JavaScript number: \<open>createBuffer\<close> truncates it (and reads the infinite or undefined
  quotient by 0 channels as 0, as HOL's \<open>div\<close> does), while the inner loop runs while
  \<open>i < frameCount\<close>, that is while \<open>i * numChannels < dataInt16.length\<close>. A write to
  \<open>channelData[i]\<close> past the buffer's length is ignored.
\<close>

function fill_channel ::
  "16 word list \<Rightarrow> nat \<Rightarrow> nat \<Rightarrow> nat \<Rightarrow> real list \<Rightarrow> real list" where
  "fill_channel dataInt16 numChannels channel i channelData =
     (if 0 < numChannels \<and> i * numChannels < length dataInt16
      then fill_channel dataInt16 numChannels channel (i + 1)
             (if i < length channelData
              then channelData[i := real_of_int (sint (dataInt16 ! (i * numChannels + channel))) / 32768]
              else channelData)
      else channelData)"
  by pat_completeness auto
termination
  by (relation "measure (\<lambda>(dataInt16, numChannels, channel, i, channelData).
                           length dataInt16 - i * numChannels)") auto

declare fill_channel.simps [simp del]


text \<open>
  The outer loop of \<open>decodeAudioData\<close>; \<open>getChannelData(channel)\<close> throws
  \<open>IndexSizeError\<close> for a channel the buffer does not have.
\<close>

function fill_channels ::
  "16 word list \<Rightarrow> nat \<Rightarrow> nat \<Rightarrow> audio_buffer \<Rightarrow> error + audio_buffer" where
  "fill_channels dataInt16 numChannels channel buffer =
     (if channel < numChannels
      then (if channel < numberOfChannels buffer \<and> channel < length (ab_channelData buffer)
            then fill_channels dataInt16 numChannels (channel + 1)
                   (buffer\<lparr>ab_channelData := (ab_channelData buffer)
                      [channel := fill_channel dataInt16 numChannels channel 0
                                    (ab_channelData buffer ! channel)]\<rparr>)
            else Inl IndexSizeError)
      else Inr buffer)"
  by pat_completeness auto
termination
  by (relation "measure (\<lambda>(dataInt16, numChannels, channel, buffer). numChannels - channel)") auto

declare fill_channels.simps [simp del]

datatype ctx_state = Suspended | Running

record audio_context =
  ctxId :: nat
  ctxState :: ctx_state
  ctxSampleRate :: nat

definition decodeAudioData ::
  "uint8array \<Rightarrow> audio_context \<Rightarrow> nat \<Rightarrow> nat \<Rightarrow> error + audio_buffer" where
  "decodeAudioData data ctx sampleRate numChannels =
     (case new_Int16Array (u8_buffer data) (u8_byteOffset data) (u8_length data div 2) of
        Inl e \<Rightarrow> Inl e
      | Inr dataInt16 \<Rightarrow>
          (case createBuffer numChannels (length dataInt16 div numChannels) sampleRate of
             Inl e \<Rightarrow> Inl e
           | Inr buffer \<Rightarrow> fill_channels dataInt16 numChannels 0 buffer))"

section \<open>The audio session and the playback controller\<close>

text \<open>
  The component's state: the two refs, the two pieces of React state the audio code
  sets, the \<open>AudioBufferSourceNode\<close>s made so far (a node is named by its index) and
  the number of \<open>AudioContext\<close>s constructed so far. The program never calls
  \<open>close()\<close> or \<open>suspend()\<close>, so a context is suspended or running.
\<close>

datatype node_state = Unstarted | Playing | Finished

record source_node =
  node_buffer :: "audio_buffer option"
  node_connected :: bool
  node_state :: node_state

record app_state =
  audioContextRef :: "audio_context option"
  currentSourceRef :: "nat option"
  isLoadingAudio :: bool
  apiError :: "string option"
  nodes :: "source_node list"
  contexts_constructed :: nat

definition initial_state :: app_state where
  "initial_state =
     \<lparr>audioContextRef = None, currentSourceRef = None, isLoadingAudio = False,
      apiError = None, nodes = [], contexts_constructed = 0\<rparr>"

text \<open>
  What the world outside the component answers during one call: whether the
  \<open>AudioContext\<close> constructor throws or in which state the new context starts (a
  browser starts it suspended until a user gesture), whether \<open>resume()\<close> rejects, what
  \<open>process.env.API_KEY\<close> reads, whether the client constructor throws, whether the
  remote call rejects or which audio payload (if any) its response carries, and whether
  \<open>createBufferSource\<close>, \<open>connect\<close> and \<open>start\<close> throw.
\<close>

record host =
  new_AudioContext :: "error + ctx_state"
  resume :: "error option"
  API_KEY :: "error + string option"
  new_GoogleGenAI :: "error option"
  generateContent :: "error + string option"
  createBufferSource :: "error option"
  connect :: "error option"
  start :: "error option"

text \<open>
  \<open>initAudio\<close> returns the context or the exception it rejects with, and the state.
\<close>

definition initAudio :: "host \<Rightarrow> app_state \<Rightarrow> (error + audio_context) \<times> app_state" where
  "initAudio h s =
     (case (case audioContextRef s of
              Some c \<Rightarrow> Inr (c, s)
            | None \<Rightarrow>
                (case new_AudioContext h of
                   Inl e \<Rightarrow> Inl e
                 | Inr st \<Rightarrow>
                     (let c = \<lparr>ctxId = contexts_constructed s, ctxState = st,
                               ctxSampleRate = 24000\<rparr>
                      in Inr (c, s\<lparr>audioContextRef := Some c,
                                   contexts_constructed := contexts_constructed s + 1\<rparr>)))) of
        Inl e \<Rightarrow> (Inl e, s)
      | Inr (c, s1) \<Rightarrow>
          if ctxState c = Suspended
          then (case resume h of
                  Some e \<Rightarrow> (Inl e, s1)
                | None \<Rightarrow>
                    (let c' = c\<lparr>ctxState := Running\<rparr>
                     in (Inr c', s1\<lparr>audioContextRef := Some c'\<rparr>)))
          else (Inr c, s1))"

text \<open>
  \<open>stop()\<close> on a node that was never started throws \<open>InvalidStateError\<close>; on a playing
  node it ends the playback; on a finished node it does nothing.
\<close>

definition node_stop :: "node_state \<Rightarrow> error + node_state" where
  "node_stop st = (case st of Unstarted \<Rightarrow> Inl InvalidStateError | Playing \<Rightarrow> Inr Finished
                   | Finished \<Rightarrow> Inr Finished)"

definition source_stop :: "app_state \<Rightarrow> nat \<Rightarrow> error + app_state" where
  "source_stop s src =
     (case node_stop (node_state (nodes s ! src)) of
        Inl e \<Rightarrow> Inl e
      | Inr st \<Rightarrow> Inr (s\<lparr>nodes := (nodes s)[src := (nodes s ! src)\<lparr>node_state := st\<rparr>]\<rparr>))"

definition stopCurrentAudio :: "app_state \<Rightarrow> app_state" where
  "stopCurrentAudio s =
     (case currentSourceRef s of
        None \<Rightarrow> s
      | Some src \<Rightarrow>
          (case source_stop s src of Inl e \<Rightarrow> s | Inr s' \<Rightarrow> s')\<lparr>currentSourceRef := None\<rparr>)"

text \<open>
  The message of the \<open>catch\<close> branch of \<open>playTTS\<close> (``voice off''; the other copy of
  the component words the same condition differently).
\<close>

definition VOICE_UNAVAILABLE :: string where
  "VOICE_UNAVAILABLE = ''Voz desactivada''"

text \<open>
  \<open>playTTS\<close>, cut where it waits for the remote call. A piece of the \<open>try\<close> block
  gives the exception it throws, if any, and the state at that point; \<open>playTTS_catch\<close>
  is the \<open>catch\<close> branch.
\<close>

definition playTTS_catch :: "app_state \<Rightarrow> app_state" where
  "playTTS_catch s = s\<lparr>isLoadingAudio := False, apiError := Some VOICE_UNAVAILABLE\<rparr>"

text \<open>Lines 141 to 148: decode, make the source node, track it, start it.\<close>

definition play_payload ::
  "host \<Rightarrow> audio_context \<Rightarrow> string \<Rightarrow> app_state \<Rightarrow> error option \<times> app_state" where
  "play_payload h ctx base64Audio s =
     (case decodeAudioData (decodeBase64 base64Audio) ctx 24000 1 of
        Inl e \<Rightarrow> (Some e, s)
      | Inr audioBuffer \<Rightarrow>
          (case createBufferSource h of
             Some e \<Rightarrow> (Some e, s)
           | None \<Rightarrow>
               (let source = length (nodes s);
                    s1 = s\<lparr>nodes := nodes s @
                           [\<lparr>node_buffer = Some audioBuffer, node_connected = False,
                             node_state = Unstarted\<rparr>]\<rparr>
                in case connect h of
                     Some e \<Rightarrow> (Some e, s1)
                   | None \<Rightarrow>
                       (let s2 = s1\<lparr>nodes := (nodes s1)
                                     [source := (nodes s1 ! source)\<lparr>node_connected := True\<rparr>],
                                   currentSourceRef := Some source\<rparr>
                        in case start h of
                             Some e \<Rightarrow> (Some e, s2)
                           | None \<Rightarrow>
                               (None, s2\<lparr>nodes := (nodes s2)
                                           [source := (nodes s2 ! source)\<lparr>node_state := Playing\<rparr>],
                                         apiError := None\<rparr>)))))"

text \<open>
  The \<open>try\<close> block up to the \<open>await\<close> of the remote call: the credential check
  and the construction of the client. It changes no state.
\<close>

definition try_request :: "host \<Rightarrow> error option" where
  "try_request h =
     (case API_KEY h of
        Inl e \<Rightarrow> Some e
      | Inr apiKey \<Rightarrow>
          if falsy apiKey \<or> apiKey = Some ''undefined'' then Some NO_KEY
          else new_GoogleGenAI h)"

text \<open>
  The \<open>try\<close> block from the answer of the remote call on. A response without audio
  payload (the optional chain gives \<open>undefined\<close>, or the payload is the empty
  string) skips the \<open>if\<close>.
\<close>

definition try_response :: "host \<Rightarrow> audio_context \<Rightarrow> app_state \<Rightarrow> error option \<times> app_state" where
  "try_response h ctx s =
     (case generateContent h of
        Inl e \<Rightarrow> (Some e, s)
      | Inr base64Audio \<Rightarrow>
          if falsy base64Audio then (None, s)
          else play_payload h ctx (the base64Audio) s)"

text \<open>
  The first piece of a call: everything up to the \<open>await\<close> of the remote call. It
  ends in one of three ways: \<open>initAudio\<close> rejected (it stands outside the \<open>try\<close>, so
  \<open>playTTS\<close> rejects), the \<open>try\<close> block threw before the request and the \<open>catch\<close>
  branch ran, or the request is in flight.
\<close>

datatype request = Rejected error | Settled | Pending audio_context

definition playTTS_request :: "host \<Rightarrow> app_state \<Rightarrow> request \<times> app_state" where
  "playTTS_request h s =
     (case initAudio h (stopCurrentAudio s) of
        (Inl e, s1) \<Rightarrow> (Rejected e, s1)
      | (Inr ctx, s1) \<Rightarrow>
          (let s2 = s1\<lparr>isLoadingAudio := True\<rparr> in
           case try_request h of
             Some e \<Rightarrow> (Settled, playTTS_catch s2)
           | None \<Rightarrow> (Pending ctx, s2)))"

text \<open>The second piece: from the answer of the remote call to the end.\<close>

definition playTTS_response :: "host \<Rightarrow> audio_context \<Rightarrow> app_state \<Rightarrow> app_state" where
  "playTTS_response h ctx s =
     (case try_response h ctx s of
        (Some e, s') \<Rightarrow> playTTS_catch s'
      | (None, s') \<Rightarrow> s')"

text \<open>
  A whole call with nothing in between: the exception \<open>playTTS\<close> rejects with, if
  any, and the state when it settles.
\<close>

definition playTTS :: "host \<Rightarrow> app_state \<Rightarrow> error option \<times> app_state" where
  "playTTS h s =
     (case playTTS_request h s of
        (Rejected e, s1) \<Rightarrow> (Some e, s1)
      | (Settled, s1) \<Rightarrow> (None, s1)
      | (Pending ctx, s1) \<Rightarrow> (None, playTTS_response h ctx s1))"

text \<open>
  The \<open>onended\<close> handler of a source node, and the end of a playing node by itself.
\<close>

definition onended :: "app_state \<Rightarrow> app_state" where
  "onended s = s\<lparr>isLoadingAudio := False\<rparr>"

definition node_ends :: "nat \<Rightarrow> app_state \<Rightarrow> app_state" where
  "node_ends src s =
     (if src < length (nodes s) \<and> node_state (nodes s ! src) = Playing
      then onended (s\<lparr>nodes := (nodes s)[src := (nodes s ! src)\<lparr>node_state := Finished\<rparr>]\<rparr>)
      else s)"

text \<open>
  The states of a page lifetime: from the initial state, by the pieces of \<open>playTTS\<close> in
  any order (two calls may overlap), by \<open>initAudio\<close> (which \<open>startGame\<close> calls) and by
  nodes ending.
\<close>

inductive reachable :: "app_state \<Rightarrow> bool" where
  init: "reachable initial_state"
| request: "reachable s \<Longrightarrow> reachable (snd (playTTS_request h s))"
| response: "reachable s \<Longrightarrow> audioContextRef s = Some c \<Longrightarrow> reachable (playTTS_response h c s)"
| acquire: "reachable s \<Longrightarrow> reachable (snd (initAudio h s))"
| ended: "reachable s \<Longrightarrow> reachable (node_ends src s)"
| handler: "reachable s \<Longrightarrow> reachable (onended s)"

definition playing :: "app_state \<Rightarrow> nat list" where
  "playing s = filter (\<lambda>i. node_state (nodes s ! i) = Playing) [0..<length (nodes s)]"

section \<open>The option shuffler\<close>

text \<open>
  Arrays are objects: the heap is the list of the arrays allocated so far and an array
  is named by its index. \<open>[...array]\<close> allocates a copy. \<open>pick i\<close> is the integer
  \<open>Math.floor(Math.random() * (i + 1))\<close> of the pass with index \<open>i\<close>;
  \<open>Math.random()\<close> is at least 0 and less than 1, so that integer is at most \<open>i\<close>.
  The destructuring swap reads both elements, then writes \<open>shuffled[i]\<close>, then
  \<open>shuffled[j]\<close>.
\<close>

function shuffleArray_loop :: "(nat \<Rightarrow> nat) \<Rightarrow> nat \<Rightarrow> nat \<Rightarrow> 'a list list \<Rightarrow> 'a list list" where
  "shuffleArray_loop pick shuffled i heap =
     (if 0 < i
      then (let j = pick i;
                arr = heap ! shuffled
            in shuffleArray_loop pick shuffled (i - 1)
                 (heap[shuffled := arr[i := arr ! j, j := arr ! i]]))
      else heap)"
  by pat_completeness auto
termination
  by (relation "measure (\<lambda>(pick, shuffled, i, heap). i)") auto

declare shuffleArray_loop.simps [simp del]

definition shuffleArray :: "(nat \<Rightarrow> nat) \<Rightarrow> nat \<Rightarrow> 'a list list \<Rightarrow> nat \<times> 'a list list" where
  "shuffleArray pick array heap =
     (let shuffled = length heap;
          heap1 = heap @ [heap ! array]
      in (shuffled, shuffleArray_loop pick shuffled (length (heap1 ! shuffled) - 1) heap1))"

section \<open>Invariant and examples\<close>

text \<open>
  At most one context has been constructed, it is the one the ref holds, and it has the
  fixed rate.
\<close>

definition session_inv :: "app_state \<Rightarrow> bool" where
  "session_inv s =
     (case audioContextRef s of
        None \<Rightarrow> contexts_constructed s = 0
      | Some c \<Rightarrow> contexts_constructed s = 1 \<and> ctxId c = 0 \<and> ctxSampleRate c = 24000)"

text \<open>
  Hosts and states for the examples. With \<open>h_ok\<close> everything succeeds: the context
  starts suspended and resumes, a credential is set, and the response carries the
  payload \<open>AAA=\<close>, two zero bytes, that is one sample. \<open>h_no_context\<close> cannot
  construct an \<open>AudioContext\<close>, \<open>h_offline\<close> cannot reach the remote service and the
  response of \<open>h_no_payload\<close> has no audio part.
\<close>

definition h_ok :: host where
  "h_ok = \<lparr>new_AudioContext = Inr Suspended, resume = None,
            API_KEY = Inr (Some ''0123456789abcdef''), new_GoogleGenAI = None,
            generateContent = Inr (Some ''AAA=''), createBufferSource = None,
            connect = None, start = None\<rparr>"

definition h_no_context :: host where
  "h_no_context = h_ok\<lparr>new_AudioContext := Inl NotSupportedError\<rparr>"


definition h_no_payload :: host where
  "h_no_payload = h_ok\<lparr>generateContent := Inr None\<rparr>"

definition ctx_running :: audio_context where
  "ctx_running = \<lparr>ctxId = 0, ctxState = Running, ctxSampleRate = 24000\<rparr>"

definition one_sample :: audio_buffer where
  "one_sample = \<lparr>numberOfChannels = 1, ab_length = 1, ab_sampleRate = 24000,
                  ab_channelData = [[0]]\<rparr>"

definition playing_node :: source_node where
  "playing_node = \<lparr>node_buffer = Some one_sample, node_connected = True, node_state = Playing\<rparr>"

definition loading_state :: app_state where
  "loading_state = initial_state\<lparr>audioContextRef := Some ctx_running, isLoadingAudio := True,
                                  contexts_constructed := 1\<rparr>"

definition never_started :: app_state where
  "never_started =
     initial_state\<lparr>nodes := [\<lparr>node_buffer = None, node_connected = True, node_state = Unstarted\<rparr>],
                   currentSourceRef := Some 0\<rparr>"

text \<open>
  The vocabulary of the claim about the byte decoder, after RFC 4648: the standard
  encoding of a byte sequence (three bytes give four characters, the rest is padded
  with \<open>=\<close> to a multiple of four) and what makes a string valid base64 (a length that
  is a multiple of four and, the final one or two \<open>=\<close> apart, characters of the
  alphabet only). Neither is code of the program.
\<close>

definition b64_char :: "nat \<Rightarrow> char" where
  "b64_char n =
     (if n < 26 then char_of (65 + n)
      else if n < 52 then char_of (71 + n)
      else if n < 62 then char_of (n - 4)
      else if n = 62 then CHR ''+''
      else CHR ''/'')"

fun rfc4648_groups :: "nat list \<Rightarrow> string" where
  "rfc4648_groups (a # b # c # rest) =
     b64_char (a div 4) # b64_char ((a mod 4) * 16 + b div 16)
       # b64_char ((b mod 16) * 4 + c div 64) # b64_char (c mod 64) # rfc4648_groups rest"
| "rfc4648_groups [a, b] =
     [b64_char (a div 4), b64_char ((a mod 4) * 16 + b div 16), b64_char ((b mod 16) * 4), CHR ''='']"
| "rfc4648_groups [a] = [b64_char (a div 4), b64_char ((a mod 4) * 16), CHR ''='', CHR ''='']"
| "rfc4648_groups [] = []"

definition rfc4648_encode :: "8 word list \<Rightarrow> string" where
  "rfc4648_encode bytes = rfc4648_groups (map unat bytes)"

definition rfc4648_valid :: "string \<Rightarrow> bool" where
  "rfc4648_valid s =
     (length s mod 4 = 0 \<and> list_all (\<lambda>c. b64_value c \<noteq> None) (strip_padding s))"




text \<open>
  Two overlapping calls: the second call begins while the remote call of the first is
  pending, then the first response arrives, then the second.
\<close>

definition requested_twice :: app_state where
  "requested_twice = snd (playTTS_request h_ok (snd (playTTS_request h_ok initial_state)))"

definition overlapping_calls :: app_state where
  "overlapping_calls =
     playTTS_response h_ok ctx_running (playTTS_response h_ok ctx_running requested_twice)"

section \<open>Properties of the credential check\<close>

text \<open>
  C9. The credential check reports the configuration valid exactly when the credential
  is present, is not the literal \<open>undefined\<close>, is not empty and has at least 10
  characters; otherwise (and also when reading it throws) it reports it invalid. A
  credential of length 5 is invalid, one of length 10 that is no placeholder is valid.
  The check is a total function into the booleans: it never raises.
\<close>

theorem checkApiKey_iff:
  "(checkApiKey r = False \<longleftrightarrow>
      (r = Inr None \<or> (\<exists>e. r = Inl e) \<or> r = Inr (Some ''undefined'') \<or> r = Inr (Some [])
       \<or> (\<exists>k. r = Inr (Some k) \<and> length k < 10)))
   \<and> checkApiKey (Inr (Some ''abcde'')) = False
   \<and> checkApiKey (Inr (Some ''abcdefghij'')) = True"
  by (cases r) (auto simp: checkApiKey_def falsy_def split: option.splits)

section \<open>Properties of the playback controller\<close>

subsection \<open>Stopping\<close>

lemma stopCurrentAudio_ref [simp]: "currentSourceRef (stopCurrentAudio s) = None"
  by (simp add: stopCurrentAudio_def split: option.splits sum.splits)

lemma stopCurrentAudio_fields [simp]:
  "audioContextRef (stopCurrentAudio s) = audioContextRef s"
  "contexts_constructed (stopCurrentAudio s) = contexts_constructed s"
  "isLoadingAudio (stopCurrentAudio s) = isLoadingAudio s"
  "apiError (stopCurrentAudio s) = apiError s"
  "length (nodes (stopCurrentAudio s)) = length (nodes s)"
  by (auto simp: stopCurrentAudio_def source_stop_def split: option.splits sum.splits)

lemma stop_none: "currentSourceRef s = None \<Longrightarrow> stopCurrentAudio s = s"
  by (simp add: stopCurrentAudio_def)

lemma stop_initial: "stopCurrentAudio initial_state = initial_state"
  by (simp add: stop_none initial_state_def)

text \<open>
  C7. In every state \<open>stopCurrentAudio\<close> returns a state (the exception of \<open>stop()\<close>
  is the \<open>Inl\<close> branch that the \<open>catch\<close> swallows) and the tracked handle is cleared
  afterwards, whether \<open>stop()\<close> threw (a handle that was never started) or not (a
  playing or finished handle); with no handle tracked the state is unchanged.
\<close>

theorem stopCurrentAudio_clears:
  "currentSourceRef (stopCurrentAudio s) = None
   \<and> (currentSourceRef s = None \<longrightarrow> stopCurrentAudio s = s)
   \<and> (\<forall>src e. currentSourceRef s = Some src \<and> source_stop s src = Inl e
         \<longrightarrow> stopCurrentAudio s = s\<lparr>currentSourceRef := None\<rparr>)
   \<and> (\<forall>src s'. currentSourceRef s = Some src \<and> source_stop s src = Inr s'
         \<longrightarrow> stopCurrentAudio s = s'\<lparr>currentSourceRef := None\<rparr>)"
  by (auto simp: stopCurrentAudio_def split: option.splits sum.splits)

theorem stopCurrentAudio_clears_witness:
  "currentSourceRef never_started = Some 0
   \<and> source_stop never_started 0 = Inl InvalidStateError
   \<and> stopCurrentAudio never_started = never_started\<lparr>currentSourceRef := None\<rparr>
   \<and> currentSourceRef (stopCurrentAudio initial_state) = None
   \<and> stopCurrentAudio initial_state = initial_state"
proof -
  have a: "currentSourceRef never_started = Some 0"
    by (simp add: never_started_def)
  have b: "source_stop never_started 0 = Inl InvalidStateError"
    by (simp add: never_started_def source_stop_def node_stop_def)
  have c: "currentSourceRef initial_state = None"
    by (simp add: initial_state_def)
  from stopCurrentAudio_clears [of never_started] a b stopCurrentAudio_clears [of initial_state] c
  show ?thesis by blast
qed

subsection \<open>The session\<close>

lemma not_Suspended [simp]: "(st \<noteq> Suspended) = (st = Running)"
  by (cases st) simp_all

lemma initAudio_frame:
  "isLoadingAudio (snd (initAudio h s)) = isLoadingAudio s"
  "apiError (snd (initAudio h s)) = apiError s"
  "currentSourceRef (snd (initAudio h s)) = currentSourceRef s"
  "nodes (snd (initAudio h s)) = nodes s"
  by (auto simp: initAudio_def Let_def split: option.splits sum.splits)

lemma session_inv_initAudio: "session_inv s \<Longrightarrow> session_inv (snd (initAudio h s))"
  by (auto simp: session_inv_def initAudio_def Let_def split: option.splits sum.splits)

lemma session_inv_stop: "session_inv s \<Longrightarrow> session_inv (stopCurrentAudio s)"
  by (simp add: session_inv_def split: option.splits)

lemma session_inv_catch: "session_inv s \<Longrightarrow> session_inv (playTTS_catch s)"
  by (simp add: session_inv_def playTTS_catch_def split: option.splits)

lemma session_inv_request: "session_inv s \<Longrightarrow> session_inv (snd (playTTS_request h s))"
proof -
  assume "session_inv s"
  then have "session_inv (snd (initAudio h (stopCurrentAudio s)))"
    by (intro session_inv_initAudio session_inv_stop)
  then show ?thesis
    by (auto simp: playTTS_request_def Let_def session_inv_def playTTS_catch_def
             split: prod.splits sum.splits option.splits)
qed

lemma play_payload_session:
  "audioContextRef (snd (play_payload h c p s)) = audioContextRef s
   \<and> contexts_constructed (snd (play_payload h c p s)) = contexts_constructed s"
  by (simp add: play_payload_def Let_def split: sum.splits option.splits)

lemma session_inv_response: "session_inv s \<Longrightarrow> session_inv (playTTS_response h c s)"
  by (auto simp: playTTS_response_def try_response_def session_inv_def playTTS_catch_def
                 play_payload_session
           split: prod.splits sum.splits option.splits if_splits
           dest!: arg_cong [where f = snd])

lemma reachable_session_inv: "reachable s \<Longrightarrow> session_inv s"
proof (induction rule: reachable.induct)
  case init
  show ?case by (simp add: session_inv_def initial_state_def)
next
  case (ended s src)
  then show ?case by (simp add: session_inv_def node_ends_def onended_def split: option.splits)
next
  case (handler s)
  then show ?case by (simp add: session_inv_def onended_def split: option.splits)
qed (simp_all add: session_inv_request session_inv_response session_inv_initAudio)

lemma initAudio_h_ok: "initAudio (h_ok\<lparr>generateContent := g\<rparr>) initial_state
    = (Inr ctx_running, initial_state\<lparr>audioContextRef := Some ctx_running, contexts_constructed := 1\<rparr>)"
  by (simp add: initAudio_def h_ok_def initial_state_def ctx_running_def Let_def)


text \<open>
  C8. In every state of a page lifetime at most one \<open>AudioContext\<close> has been
  constructed. A call of \<open>initAudio\<close> that returns gives the context number 0, running,
  with the rate 24000 Hz; it constructs nothing when the ref already holds a context;
  and a second call right after it returns the same running context and changes nothing,
  whatever the host answers. Where the constructor and \<open>resume()\<close> succeed, the call
  returns.
\<close>

theorem initAudio_single_session:
  assumes "reachable s"
  shows "contexts_constructed s \<le> 1
    \<and> (\<forall>c s1. initAudio h s = (Inr c, s1) \<longrightarrow>
          ctxId c = 0 \<and> ctxState c = Running \<and> ctxSampleRate c = 24000
          \<and> audioContextRef s1 = Some c \<and> contexts_constructed s1 = 1
          \<and> (audioContextRef s \<noteq> None \<longrightarrow> contexts_constructed s1 = contexts_constructed s)
          \<and> (\<forall>h'. initAudio h' s1 = (Inr c, s1)))
    \<and> ((\<exists>st. new_AudioContext h = Inr st) \<and> resume h = None \<longrightarrow>
          (\<exists>c s1. initAudio h s = (Inr c, s1)))"
proof -
  have inv: "session_inv s"
    using assms by (rule reachable_session_inv)
  have 1: "contexts_constructed s \<le> 1"
    using inv by (simp add: session_inv_def split: option.splits)
  have 2: "ctxId c = 0 \<and> ctxState c = Running \<and> ctxSampleRate c = 24000
          \<and> audioContextRef s1 = Some c \<and> contexts_constructed s1 = 1
          \<and> (audioContextRef s \<noteq> None \<longrightarrow> contexts_constructed s1 = contexts_constructed s)
          \<and> (\<forall>h'. initAudio h' s1 = (Inr c, s1))"
    if "initAudio h s = (Inr c, s1)" for c s1
    using that inv
    by (cases "audioContextRef s"; cases "new_AudioContext h"; cases "resume h")
       (auto simp: initAudio_def session_inv_def Let_def split: if_splits)
  have 3: "\<exists>c s1. initAudio h s = (Inr c, s1)"
    if "(\<exists>st. new_AudioContext h = Inr st) \<and> resume h = None"
    using that by (auto simp: initAudio_def Let_def split: option.splits)
  from 1 2 3 show ?thesis by blast
qed

theorem initAudio_single_session_witness:
  "reachable initial_state
   \<and> initAudio h_ok initial_state = (Inr ctx_running, snd (initAudio h_ok initial_state))
   \<and> initAudio h_no_context (snd (initAudio h_ok initial_state))
       = (Inr ctx_running, snd (initAudio h_ok initial_state))
   \<and> contexts_constructed (snd (initAudio h_ok initial_state)) = 1"
proof -
  have a: "initAudio h_ok initial_state = (Inr ctx_running, snd (initAudio h_ok initial_state))"
    using initAudio_h_ok [of "generateContent h_ok"] by simp
  have "\<forall>c s1. initAudio h_ok initial_state = (Inr c, s1) \<longrightarrow>
          ctxId c = 0 \<and> ctxState c = Running \<and> ctxSampleRate c = 24000
          \<and> audioContextRef s1 = Some c \<and> contexts_constructed s1 = 1
          \<and> (audioContextRef initial_state \<noteq> None \<longrightarrow>
               contexts_constructed s1 = contexts_constructed initial_state)
          \<and> (\<forall>h'. initAudio h' s1 = (Inr c, s1))"
    using initAudio_single_session [OF reachable.init, of h_ok] by (elim conjE)
  then have b: "contexts_constructed (snd (initAudio h_ok initial_state)) = 1
     \<and> (\<forall>h'. initAudio h' (snd (initAudio h_ok initial_state))
           = (Inr ctx_running, snd (initAudio h_ok initial_state)))"
    using a by blast
  from a b reachable.init show ?thesis by blast
qed

subsection \<open>Speaking\<close>

lemma atob_AAA: "atob ''AAA='' = Inr [CHR 0x00, CHR 0x00]"
  by code_simp

lemma decodeBase64_AAA:
  "decodeBase64 ''AAA='' = \<lparr>u8_buffer = [0, 0], u8_byteOffset = 0, u8_length = 2\<rparr>"
  by (simp add: decodeBase64_def atob_AAA new_Uint8Array_def u8_set_def numeral_2_eq_2
        decodeBase64_loop.simps)

lemma decodeAudioData_AAA: "decodeAudioData (decodeBase64 ''AAA='') c 24000 1 = Inr one_sample"
  by (simp add: decodeBase64_AAA decodeAudioData_def new_Int16Array_def createBuffer_def
        int16_le_def one_sample_def fill_channels.simps fill_channel.simps)

lemma try_request_h_ok: "try_request (h_ok\<lparr>generateContent := g\<rparr>) = None"
  by (simp add: try_request_def h_ok_def falsy_def)




text \<open>
  C2. A response without audio payload: the call settles without exception, no node is
  made and no error is set, but the loading indicator, set before the request, is
  still on.
\<close>

theorem playTTS_no_payload_keeps_loading:
  "playTTS h_no_payload initial_state = (None, loading_state)"
proof -
  have "playTTS h_no_payload initial_state =
      (None, initial_state\<lparr>audioContextRef := Some ctx_running, contexts_constructed := 1,
                            isLoadingAudio := True\<rparr>)"
    by (simp add: playTTS_def playTTS_request_def playTTS_response_def try_response_def
          stop_initial h_no_payload_def initAudio_h_ok try_request_h_ok falsy_def)
  then show ?thesis
    by (simp add: loading_state_def initial_state_def)
qed

lemma request_first: "playTTS_request h_ok initial_state = (Pending ctx_running, loading_state)"
proof -
  have "playTTS_request (h_ok\<lparr>generateContent := generateContent h_ok\<rparr>) initial_state =
      (Pending ctx_running, initial_state\<lparr>audioContextRef := Some ctx_running,
         contexts_constructed := 1, isLoadingAudio := True\<rparr>)"
    unfolding playTTS_request_def stop_initial initAudio_h_ok try_request_h_ok
    by (simp add: Let_def)
  then show ?thesis
    by (simp add: loading_state_def initial_state_def)
qed

lemma request_second: "playTTS_request h_ok loading_state = (Pending ctx_running, loading_state)"
proof -
  have a: "stopCurrentAudio loading_state = loading_state"
    by (simp add: stop_none loading_state_def initial_state_def)
  have b: "initAudio h_ok loading_state = (Inr ctx_running, loading_state)"
    by (simp add: initAudio_def loading_state_def initial_state_def ctx_running_def)
  have c: "try_request h_ok = None"
    using try_request_h_ok [of "generateContent h_ok"] by simp
  have d: "loading_state\<lparr>isLoadingAudio := True\<rparr> = loading_state"
    by (simp add: loading_state_def)
  show ?thesis
    unfolding playTTS_request_def a b c by (simp add: Let_def d)
qed

lemma requested_twice_eq: "requested_twice = loading_state"
  by (simp add: requested_twice_def request_first request_second)

lemma response_h_ok:
  "playTTS_response h_ok c s =
     s\<lparr>nodes := nodes s @ [playing_node], currentSourceRef := Some (length (nodes s)),
        apiError := None\<rparr>"
proof -
  have g: "generateContent h_ok = Inr (Some ''AAA='')" "createBufferSource h_ok = None"
    "connect h_ok = None" "start h_ok = None"
    by (simp_all add: h_ok_def)
  have d: "decodeAudioData (decodeBase64 ''AAA='') c 24000 (Suc 0) = Inr one_sample"
    using decodeAudioData_AAA [of c] by simp
  show ?thesis
    by (simp add: playTTS_response_def try_response_def play_payload_def g falsy_def
          d Let_def playing_node_def)
qed

lemma playTTS_request_stops_first:
  "currentSourceRef (snd (playTTS_request h s)) = None"
proof -
  have "currentSourceRef (snd (initAudio h (stopCurrentAudio s))) = None"
    by (simp add: initAudio_frame)
  then show ?thesis
    by (auto simp: playTTS_request_def Let_def playTTS_catch_def
             split: prod.splits sum.splits option.splits)
qed

text \<open>
  C6. Every call begins with \<open>stopCurrentAudio\<close>, so no handle is tracked when the
  request goes out (the lemma above). Yet two overlapping calls leave two nodes
  playing: the ref tracks the second only, so the next \<open>stopCurrentAudio\<close> stops that
  one and the first keeps playing.
\<close>

theorem overlapping_calls_two_playing:
  "playing overlapping_calls = [0, 1]
   \<and> currentSourceRef overlapping_calls = Some 1
   \<and> playing (stopCurrentAudio overlapping_calls) = [0]"
proof -
  have s: "overlapping_calls =
      loading_state\<lparr>nodes := [playing_node, playing_node], currentSourceRef := Some 1,
                     apiError := None\<rparr>"
    by (simp add: overlapping_calls_def requested_twice_eq response_h_ok)
       (simp add: loading_state_def initial_state_def)
  have p: "node_state playing_node = Playing"
    by (simp add: playing_node_def)
  have 1: "playing overlapping_calls = [0, 1]"
    by (simp add: s playing_def p upt_rec [of 0] upt_rec [of 1] upt_rec [of 2] numeral_2_eq_2
         loading_state_def initial_state_def)
  have 2: "currentSourceRef overlapping_calls = Some 1"
    by (simp add: s)
  have 3: "playing (stopCurrentAudio overlapping_calls) = [0]"
    by (simp add: s stopCurrentAudio_def source_stop_def node_stop_def p playing_def
          upt_rec [of 0] upt_rec [of 1] upt_rec [of 2] numeral_2_eq_2
         loading_state_def initial_state_def)
  from 1 2 3 show ?thesis by simp
qed

section \<open>Properties of the PCM decoder\<close>

lemma byte_lt: "unat (b :: 8 word) < 256"
  using unsigned_less [of b, where 'a = nat] by simp














section \<open>Properties of the byte decoder\<close>

lemma b64_value_char: "n < 64 \<Longrightarrow> b64_value (b64_char n) = Some n"
  by (auto simp: b64_value_def b64_char_def Let_def)

lemma b64_char_not_eq: "n < 64 \<Longrightarrow> b64_char n \<noteq> CHR ''=''"
  using b64_value_char [of n] by (auto simp: b64_value_def)

lemma b64_char_not_ws: "n < 64 \<Longrightarrow> \<not> is_ascii_whitespace (b64_char n)"
  using b64_value_char [of n] by (auto simp: b64_value_def is_ascii_whitespace_def Let_def split: if_splits)

lemma eq_not_ws: "\<not> is_ascii_whitespace (CHR ''='')"
  by (simp add: is_ascii_whitespace_def)

lemma sextets:
  assumes "a < 256" and "b < 256" and "c < (256::nat)"
  shows "a div 4 < 64" "(a mod 4) * 16 + b div 16 < 64" "(b mod 16) * 4 + c div 64 < 64"
    "c mod 64 < 64" "(a mod 4) * 16 < 64" "(b mod 16) * 4 < 64"
  using assms by simp_all

lemma octets:
  assumes "a < 256" and "b < 256" and "c < (256::nat)"
  shows "a div 4 * 4 + ((a mod 4) * 16 + b div 16) div 16 = a"
    "(((a mod 4) * 16 + b div 16) mod 16) * 16 + ((b mod 16) * 4 + c div 64) div 4 = b"
    "(((b mod 16) * 4 + c div 64) mod 4) * 64 + c mod 64 = c"
    "a div 4 * 4 + ((a mod 4) * 16) div 16 = a"
    "(((a mod 4) * 16 + b div 16) mod 16) * 16 + ((b mod 16) * 4) div 4 = b"
proof -
  have b16: "b div 16 < 16"
    using assms(2) by (intro less_mult_imp_div_less) simp
  have c64: "c div 64 < 4"
    using assms(3) by (intro less_mult_imp_div_less) simp
  have 1: "((a mod 4) * 16 + b div 16) div 16 = a mod 4"
    using b16 by simp
  have 2: "((a mod 4) * 16 + b div 16) mod 16 = b div 16"
    using b16 by simp
  have 3: "((b mod 16) * 4 + c div 64) div 4 = b mod 16"
    using c64 by simp
  have 4: "((b mod 16) * 4 + c div 64) mod 4 = c div 64"
    using c64 by simp
  show "a div 4 * 4 + ((a mod 4) * 16 + b div 16) div 16 = a"
    unfolding 1 by simp
  show "(((a mod 4) * 16 + b div 16) mod 16) * 16 + ((b mod 16) * 4 + c div 64) div 4 = b"
    unfolding 2 3 by simp
  show "(((b mod 16) * 4 + c div 64) mod 4) * 64 + c mod 64 = c"
    unfolding 4 by simp
  show "a div 4 * 4 + ((a mod 4) * 16) div 16 = a"
    by simp
  show "(((a mod 4) * 16 + b div 16) mod 16) * 16 + ((b mod 16) * 4) div 4 = b"
    unfolding 2 by simp
qed

lemma group_chars:
  assumes "a < 256" and "b < 256" and "c < (256::nat)"
  shows "b64_value (b64_char (a div 4)) = Some (a div 4)"
    "b64_value (b64_char ((a mod 4) * 16 + b div 16)) = Some ((a mod 4) * 16 + b div 16)"
    "b64_value (b64_char ((b mod 16) * 4 + c div 64)) = Some ((b mod 16) * 4 + c div 64)"
    "b64_value (b64_char (c mod 64)) = Some (c mod 64)"
    "b64_value (b64_char ((a mod 4) * 16)) = Some ((a mod 4) * 16)"
    "b64_value (b64_char ((b mod 16) * 4)) = Some ((b mod 16) * 4)"
    "b64_char (a div 4) \<noteq> CHR ''=''"
    "b64_char ((a mod 4) * 16 + b div 16) \<noteq> CHR ''=''"
    "b64_char ((b mod 16) * 4 + c div 64) \<noteq> CHR ''=''"
    "b64_char (c mod 64) \<noteq> CHR ''=''"
    "b64_char ((a mod 4) * 16) \<noteq> CHR ''=''"
    "b64_char ((b mod 16) * 4) \<noteq> CHR ''=''"
    "\<not> is_ascii_whitespace (b64_char (a div 4))"
    "\<not> is_ascii_whitespace (b64_char ((a mod 4) * 16 + b div 16))"
    "\<not> is_ascii_whitespace (b64_char ((b mod 16) * 4 + c div 64))"
    "\<not> is_ascii_whitespace (b64_char (c mod 64))"
    "\<not> is_ascii_whitespace (b64_char ((a mod 4) * 16))"
    "\<not> is_ascii_whitespace (b64_char ((b mod 16) * 4))"
  using sextets [OF assms]
  by (simp_all only: b64_value_char b64_char_not_eq b64_char_not_ws not_False_eq_True)

lemma rfc4648_groups_split:
  "\<forall>x\<in>set xs. x < 256 \<Longrightarrow>
   \<exists>k\<le>2. rfc4648_groups xs =
     filter (\<lambda>c. c \<noteq> CHR ''='') (rfc4648_groups xs) @ replicate k (CHR ''='')"
proof (induction xs rule: rfc4648_groups.induct)
  case (1 a b c rest)
  define u where "u = filter (\<lambda>c. c \<noteq> CHR ''='') (rfc4648_groups rest)"
  obtain k where k: "k \<le> 2" "rfc4648_groups rest = u @ replicate k (CHR ''='')"
    using 1 by (auto simp: u_def)
  have r: "a < 256" "b < 256" "c < 256"
    using "1.prems" by simp_all
  have f: "filter (\<lambda>c. c \<noteq> CHR ''='') (rfc4648_groups (a # b # c # rest)) =
      b64_char (a div 4) # b64_char ((a mod 4) * 16 + b div 16)
        # b64_char ((b mod 16) * 4 + c div 64) # b64_char (c mod 64) # u"
    by (simp add: group_chars [OF r] u_def)
  have "rfc4648_groups (a # b # c # rest) =
      filter (\<lambda>c. c \<noteq> CHR ''='') (rfc4648_groups (a # b # c # rest)) @ replicate k (CHR ''='')"
    unfolding f using k(2) by simp
  with k(1) show ?case
    by blast
next
  case (2 a b)
  then have r: "a < 256" "b < 256" "(0::nat) < 256"
    by simp_all
  show ?case
    by (intro exI [of _ 1]) (simp add: group_chars [OF r])
next
  case (3 a)
  then have r: "a < 256" "(0::nat) < 256" "(0::nat) < 256"
    by simp_all
  show ?case
    by (intro exI [of _ 2]) (simp add: group_chars [OF r] numeral_2_eq_2)
next
  case 4
  then show ?case by simp
qed

lemma length_rfc4648_groups: "length (rfc4648_groups xs) mod 4 = 0"
  by (induction xs rule: rfc4648_groups.induct) simp_all

lemma rfc4648_groups_no_ws:
  "\<forall>x\<in>set xs. x < 256 \<Longrightarrow>
   filter (\<lambda>c. \<not> is_ascii_whitespace c) (rfc4648_groups xs) = rfc4648_groups xs"
proof (induction xs rule: rfc4648_groups.induct)
  case (1 a b c rest)
  then have r: "a < 256" "b < 256" "c < 256"
    by simp_all
  show ?case
    using 1 by (simp add: group_chars [OF r])
next
  case (2 a b)
  then have r: "a < 256" "b < 256" "(0::nat) < 256"
    by simp_all
  show ?case
    by (simp add: group_chars [OF r] eq_not_ws)
next
  case (3 a)
  then have r: "a < 256" "(0::nat) < 256" "(0::nat) < 256"
    by simp_all
  show ?case
    by (simp add: group_chars [OF r] eq_not_ws)
next
  case 4
  then show ?case by simp
qed

lemma strip_padding_pads:
  assumes "length (u @ replicate k (CHR ''='')) mod 4 = 0" and "k \<le> 2"
    and "CHR ''='' \<notin> set u"
  shows "strip_padding (u @ replicate k (CHR ''='')) = u"
proof -
  have l: "u \<noteq> [] \<Longrightarrow> last u \<noteq> CHR ''=''"
    using assms(3) last_in_set by metis
  consider "k = 0" | "k = 1" | "k = 2"
    using assms(2) by linarith
  then show ?thesis
  proof cases
    case 1
    then show ?thesis
      using l by (auto simp: strip_padding_def)
  next
    case 2
    then show ?thesis
      using l assms(1) by (auto simp: strip_padding_def)
  next
    case 3
    then have "u @ replicate k (CHR ''='') = (u @ [CHR ''='']) @ [CHR ''='']"
      by (simp add: numeral_2_eq_2)
    then show ?thesis
      using l assms(1) by (auto simp: strip_padding_def simp del: append_assoc)
  qed
qed

lemma b64_groups_encoded:
  assumes "a < 256" and "b < 256" and "c < (256::nat)"
  shows "b64_groups (a div 4 # ((a mod 4) * 16 + b div 16) # ((b mod 16) * 4 + c div 64)
           # c mod 64 # vs) = a # b # c # b64_groups vs"
    "b64_groups [a div 4, (a mod 4) * 16 + b div 16, (b mod 16) * 4] = [a, b]"
    "b64_groups [a div 4, (a mod 4) * 16] = [a]"
  by (simp_all only: b64_groups.simps octets [OF assms])

lemma decode_body:
  "\<forall>x\<in>set xs. x < 256 \<Longrightarrow>
   (\<forall>c \<in> set (filter (\<lambda>c. c \<noteq> CHR ''='') (rfc4648_groups xs)). b64_value c \<noteq> None)
   \<and> b64_groups (map (\<lambda>c. the (b64_value c)) (filter (\<lambda>c. c \<noteq> CHR ''='') (rfc4648_groups xs))) = xs
   \<and> length (filter (\<lambda>c. c \<noteq> CHR ''='') (rfc4648_groups xs)) mod 4 \<noteq> 1"
proof (induction xs rule: rfc4648_groups.induct)
  case (1 a b c rest)
  then have r: "a < 256" "b < 256" "c < 256"
    by simp_all
  define u where "u = filter (\<lambda>c. c \<noteq> CHR ''='') (rfc4648_groups rest)"
  have ih: "\<forall>c \<in> set u. b64_value c \<noteq> None"
    "b64_groups (map (\<lambda>c. the (b64_value c)) u) = rest" "length u mod 4 \<noteq> 1"
    using 1 by (simp_all add: u_def)
  have f: "filter (\<lambda>c. c \<noteq> CHR ''='') (rfc4648_groups (a # b # c # rest)) =
      b64_char (a div 4) # b64_char ((a mod 4) * 16 + b div 16)
        # b64_char ((b mod 16) * 4 + c div 64) # b64_char (c mod 64) # u"
    by (simp add: group_chars [OF r] u_def)
  have m: "map (\<lambda>c. the (b64_value c))
      (b64_char (a div 4) # b64_char ((a mod 4) * 16 + b div 16)
        # b64_char ((b mod 16) * 4 + c div 64) # b64_char (c mod 64) # u) =
      a div 4 # ((a mod 4) * 16 + b div 16) # ((b mod 16) * 4 + c div 64) # c mod 64
        # map (\<lambda>c. the (b64_value c)) u"
    by (simp only: list.map group_chars [OF r] option.sel)
  have "b64_groups (map (\<lambda>c. the (b64_value c))
      (filter (\<lambda>c. c \<noteq> CHR ''='') (rfc4648_groups (a # b # c # rest)))) = a # b # c # rest"
    unfolding f m b64_groups_encoded [OF r] ih(2) ..
  moreover have "\<forall>c \<in> set (filter (\<lambda>c. c \<noteq> CHR ''='') (rfc4648_groups (a # b # c # rest))).
      b64_value c \<noteq> None"
    unfolding f using ih(1) by (simp add: group_chars [OF r])
  moreover have "length (filter (\<lambda>c. c \<noteq> CHR ''='') (rfc4648_groups (a # b # c # rest))) mod 4 \<noteq> 1"
    unfolding f using ih(3) by simp
  ultimately show ?case
    by blast
next
  case (2 a b)
  then have r: "a < 256" "b < 256" "(0::nat) < 256"
    by simp_all
  have f: "filter (\<lambda>c. c \<noteq> CHR ''='') (rfc4648_groups [a, b]) =
      [b64_char (a div 4), b64_char ((a mod 4) * 16 + b div 16), b64_char ((b mod 16) * 4)]"
    by (simp add: group_chars [OF r])
  have m: "map (\<lambda>c. the (b64_value c))
      [b64_char (a div 4), b64_char ((a mod 4) * 16 + b div 16), b64_char ((b mod 16) * 4)] =
      [a div 4, (a mod 4) * 16 + b div 16, (b mod 16) * 4]"
    by (simp only: list.map group_chars [OF r] option.sel)
  show ?case
    unfolding f m b64_groups_encoded [OF r] by (simp add: group_chars [OF r])
next
  case (3 a)
  then have r: "a < 256" "(0::nat) < 256" "(0::nat) < 256"
    by simp_all
  have f: "filter (\<lambda>c. c \<noteq> CHR ''='') (rfc4648_groups [a]) =
      [b64_char (a div 4), b64_char ((a mod 4) * 16)]"
    by (simp add: group_chars [OF r])
  have m: "map (\<lambda>c. the (b64_value c)) [b64_char (a div 4), b64_char ((a mod 4) * 16)] =
      [a div 4, (a mod 4) * 16]"
    by (simp only: list.map group_chars [OF r] option.sel)
  show ?case
    unfolding f m b64_groups_encoded [OF r] by (simp add: group_chars [OF r])
next
  case 4
  then show ?case by simp
qed

lemma atob_rfc4648_groups:
  assumes "\<forall>x\<in>set xs. x < 256"
  shows "atob (rfc4648_groups xs) = Inr (map char_of xs)"
proof -
  define u where "u = filter (\<lambda>c. c \<noteq> CHR ''='') (rfc4648_groups xs)"
  obtain k where k: "k \<le> 2" "rfc4648_groups xs = u @ replicate k (CHR ''='')"
    using rfc4648_groups_split [OF assms] by (auto simp: u_def)
  have "length (u @ replicate k (CHR ''='')) mod 4 = 0"
    using length_rfc4648_groups [of xs] k(2) by simp
  moreover have "CHR ''='' \<notin> set u"
    by (simp add: u_def)
  ultimately have s: "strip_padding (rfc4648_groups xs) = u"
    using k by (simp add: strip_padding_pads)
  have d: "\<forall>c \<in> set u. b64_value c \<noteq> None"
    "b64_groups (map (\<lambda>c. the (b64_value c)) u) = xs" "length u mod 4 \<noteq> 1"
    using decode_body [OF assms] by (simp_all add: u_def)
  have "\<not> list_ex (\<lambda>c. b64_value c = None) u"
    using d(1) by (simp add: list_ex_iff)
  then show ?thesis
    using d(2,3) by (simp add: atob_def rfc4648_groups_no_ws [OF assms] s)
qed

lemma strip_padding_rfc4648_groups:
  assumes "\<forall>x\<in>set xs. x < 256"
  shows "strip_padding (rfc4648_groups xs) = filter (\<lambda>c. c \<noteq> CHR ''='') (rfc4648_groups xs)"
proof -
  define u where "u = filter (\<lambda>c. c \<noteq> CHR ''='') (rfc4648_groups xs)"
  obtain k where k: "k \<le> 2" "rfc4648_groups xs = u @ replicate k (CHR ''='')"
    using rfc4648_groups_split [OF assms] by (auto simp: u_def)
  have "length (u @ replicate k (CHR ''='')) mod 4 = 0"
    using length_rfc4648_groups [of xs] k(2) by simp
  moreover have "CHR ''='' \<notin> set u"
    by (simp add: u_def)
  ultimately have "strip_padding (u @ replicate k (CHR ''='')) = u"
    using k(1) by (intro strip_padding_pads)
  then have "strip_padding (rfc4648_groups xs) = u"
    by (simp only: k(2) [symmetric])
  then show ?thesis
    by (simp only: u_def)
qed

lemma decodeBase64_loop_copies:
  "u8_byteOffset bytes = 0 \<Longrightarrow> u8_length bytes = length binaryString \<Longrightarrow>
   length (u8_buffer bytes) = length binaryString \<Longrightarrow> i \<le> length binaryString \<Longrightarrow>
   decodeBase64_loop binaryString i bytes =
     bytes\<lparr>u8_buffer := take i (u8_buffer bytes)
                            @ map (\<lambda>c. of_nat (of_char c)) (drop i binaryString)\<rparr>"
proof (induction "length binaryString - i" arbitrary: i bytes)
  case 0
  then show ?case
    by (subst decodeBase64_loop.simps) simp
next
  case (Suc n)
  then have i: "i < length binaryString"
    by simp
  define bytes' where "bytes' = u8_set bytes i (of_char (binaryString ! i))"
  have b: "bytes' = bytes\<lparr>u8_buffer := (u8_buffer bytes)[i := of_nat (of_char (binaryString ! i))]\<rparr>"
    using i Suc.prems(1,2) by (simp add: bytes'_def u8_set_def)
  have "decodeBase64_loop binaryString i bytes = decodeBase64_loop binaryString (i + 1) bytes'"
    using i by (subst decodeBase64_loop.simps) (simp add: bytes'_def)
  also have "\<dots> = bytes'\<lparr>u8_buffer := take (i + 1) (u8_buffer bytes')
                            @ map (\<lambda>c. of_nat (of_char c)) (drop (i + 1) binaryString)\<rparr>"
    using Suc.hyps(2) Suc.prems i by (intro Suc.hyps(1)) (simp_all add: b)
  also have "take (i + 1) (u8_buffer bytes') =
      take i (u8_buffer bytes) @ [of_nat (of_char (binaryString ! i))]"
    using i Suc.prems(3) by (simp add: b take_Suc_conv_app_nth)
  finally show ?case
    using i by (simp add: b Cons_nth_drop_Suc [symmetric])
qed

lemma decodeBase64_decoded:
  "atob base64 = Inr binaryString \<Longrightarrow>
   decodeBase64 base64 =
     \<lparr>u8_buffer = map (\<lambda>c. of_nat (of_char c)) binaryString, u8_byteOffset = 0,
      u8_length = length binaryString\<rparr>"
  by (simp add: decodeBase64_def decodeBase64_loop_copies new_Uint8Array_def)

lemma decodeBase64_failed: "atob base64 = Inl e \<Longrightarrow> decodeBase64 base64 = new_Uint8Array 0"
  by (simp add: decodeBase64_def)

lemma strip_padding_keeps:
  assumes "c \<in> set d" and "c \<noteq> CHR ''=''"
  shows "c \<in> set (strip_padding d)"
proof -
  have k: "c \<in> set (butlast xs)" if "c \<in> set xs" "xs \<noteq> []" "last xs = CHR ''=''" for xs
  proof -
    have "set xs = set (butlast xs) \<union> {last xs}"
      using that(2) by (metis append_butlast_last_id list.set(1,2) set_append Un_insert_right
          sup_bot.right_neutral)
    then show ?thesis
      using that(1,3) assms(2) by auto
  qed
  show ?thesis
    using assms(1) k [of d] k [of "butlast d"] by (auto simp: strip_padding_def)
qed

lemma atob_invalid_character:
  assumes "c \<in> set s" and "b64_value c = None" and "c \<noteq> CHR ''=''"
    and "\<not> is_ascii_whitespace c"
  shows "atob s = Inl InvalidCharacterError"
proof -
  have "c \<in> set (strip_padding (filter (\<lambda>c. \<not> is_ascii_whitespace c) s))"
    using assms(1,3,4) by (intro strip_padding_keeps) simp_all
  then have "list_ex (\<lambda>c. b64_value c = None)
      (strip_padding (filter (\<lambda>c. \<not> is_ascii_whitespace c) s))"
    using assms(2) by (auto simp: list_ex_iff)
  then show ?thesis
    by (simp add: atob_def Let_def)
qed

lemma atob_bad_length:
  assumes "length (filter (\<lambda>c. \<not> is_ascii_whitespace c) s) mod 4 = 1"
  shows "atob s = Inl InvalidCharacterError"
  using assms by (simp add: atob_def Let_def strip_padding_def)

lemma atob_stray_padding:
  assumes "length (filter (\<lambda>c. \<not> is_ascii_whitespace c) s) mod 4 \<noteq> 0"
    and "CHR ''='' \<in> set s"
  shows "atob s = Inl InvalidCharacterError"
proof -
  define d where "d = filter (\<lambda>c. \<not> is_ascii_whitespace c) s"
  have "strip_padding d = d"
    using assms(1) by (simp add: strip_padding_def d_def)
  moreover have "CHR ''='' \<in> set d"
    using assms(2) by (simp add: d_def eq_not_ws)
  moreover have "b64_value (CHR ''='') = None"
    by (simp add: b64_value_def)
  ultimately have "list_ex (\<lambda>c. b64_value c = None) (strip_padding d)"
    by (auto simp: list_ex_iff)
  then show ?thesis
    by (simp add: atob_def Let_def d_def)
qed

lemma atob_ignores_whitespace: "atob s = atob (filter (\<lambda>c. \<not> is_ascii_whitespace c) s)"
  by (simp add: atob_def)

lemma strip_padding_unpadded:
  assumes "CHR ''='' \<notin> set d"
  shows "strip_padding d = d"
proof -
  have "\<not> (d \<noteq> [] \<and> last d = CHR ''='')"
    using assms last_in_set [of d] by metis
  then show ?thesis
    unfolding strip_padding_def by (simp only: simp_thms if_False)
qed

lemma atob_unpadded:
  assumes "\<forall>x\<in>set xs. x < 256"
  shows "atob (filter (\<lambda>c. c \<noteq> CHR ''='') (rfc4648_groups xs)) = Inr (map char_of xs)"
proof -
  define u where "u = filter (\<lambda>c. c \<noteq> CHR ''='') (rfc4648_groups xs)"
  have "\<forall>c\<in>set (rfc4648_groups xs). \<not> is_ascii_whitespace c"
    using rfc4648_groups_no_ws [OF assms] by (simp add: filter_id_conv)
  then have "\<forall>c\<in>set u. \<not> is_ascii_whitespace c"
    by (simp add: u_def)
  then have w: "filter (\<lambda>c. \<not> is_ascii_whitespace c) u = u"
    by (simp only: filter_id_conv)
  have s: "strip_padding u = u"
    by (intro strip_padding_unpadded) (simp add: u_def)
  have d: "\<forall>c \<in> set u. b64_value c \<noteq> None"
    "b64_groups (map (\<lambda>c. the (b64_value c)) u) = xs" "length u mod 4 \<noteq> 1"
    using decode_body [OF assms] by (simp_all add: u_def)
  have "\<not> list_ex (\<lambda>c. b64_value c = None) u"
    using d(1) by (simp add: list_ex_iff)
  then have "atob u = Inr (map char_of xs)"
    using d(2,3) by (simp add: atob_def w s)
  then show ?thesis
    by (simp only: u_def)
qed

lemma decodeBase64_forgiving:
  assumes "filter (\<lambda>c. \<not> is_ascii_whitespace c) s = rfc4648_encode bytes
    \<or> filter (\<lambda>c. \<not> is_ascii_whitespace c) s = filter (\<lambda>c. c \<noteq> CHR ''='') (rfc4648_encode bytes)"
  shows "decodeBase64 s = \<lparr>u8_buffer = bytes, u8_byteOffset = 0, u8_length = length bytes\<rparr>"
proof -
  have x: "\<forall>x\<in>set (map unat bytes). x < 256"
    using byte_lt by auto
  have m: "map (\<lambda>c. of_nat (of_char c)) (map char_of (map unat bytes)) = bytes"
    using byte_lt by (simp add: map_idI)
  have "atob (filter (\<lambda>c. \<not> is_ascii_whitespace c) s) = Inr (map char_of (map unat bytes))"
    using assms atob_rfc4648_groups [OF x] atob_unpadded [OF x]
    by (auto simp: rfc4648_encode_def)
  then have "atob s = Inr (map char_of (map unat bytes))"
    by (simp only: atob_ignores_whitespace [of s])
  then show ?thesis
    using decodeBase64_decoded [of s "map char_of (map unat bytes)"] m by simp
qed

lemma decodeBase64_ignores_whitespace:
  "decodeBase64 s = decodeBase64 (filter (\<lambda>c. \<not> is_ascii_whitespace c) s)"
  using atob_ignores_whitespace [of s] by (simp add: decodeBase64_def)

text \<open>
  C4, as the code has it. \<open>decodeBase64\<close> is total: the exception of \<open>atob\<close> is
  caught. For every byte sequence, the standard base64 encoding of it is decoded to
  exactly those bytes, in order. So is every string that, its ASCII whitespace removed,
  is that encoding, with its padding or with all of its padding missing: whitespace
  never changes the result and padding is not required. The result is the empty array
  whenever \<open>atob\<close> throws, which it does for a string with a character that is neither
  of the alphabet, nor \<open>=\<close>, nor ASCII whitespace; for a string whose length without
  whitespace is 1 modulo 4; and for a string with a \<open>=\<close> whose length without
  whitespace is no multiple of 4.
\<close>

theorem decodeBase64_fail_soft:
  "u8_bytes (decodeBase64 (rfc4648_encode bytes)) = bytes
   \<and> u8_length (decodeBase64 (rfc4648_encode bytes)) = length bytes
   \<and> rfc4648_valid (rfc4648_encode bytes)
   \<and> (filter (\<lambda>c. \<not> is_ascii_whitespace c) s = rfc4648_encode bytes
        \<or> filter (\<lambda>c. \<not> is_ascii_whitespace c) s
            = filter (\<lambda>c. c \<noteq> CHR ''='') (rfc4648_encode bytes)
        \<longrightarrow> u8_bytes (decodeBase64 s) = bytes \<and> u8_length (decodeBase64 s) = length bytes)
   \<and> decodeBase64 s = decodeBase64 (filter (\<lambda>c. \<not> is_ascii_whitespace c) s)
   \<and> ((\<exists>c\<in>set s. b64_value c = None \<and> c \<noteq> CHR ''='' \<and> \<not> is_ascii_whitespace c)
        \<longrightarrow> decodeBase64 s = new_Uint8Array 0)
   \<and> (length (filter (\<lambda>c. \<not> is_ascii_whitespace c) s) mod 4 = 1
        \<longrightarrow> decodeBase64 s = new_Uint8Array 0)
   \<and> (length (filter (\<lambda>c. \<not> is_ascii_whitespace c) s) mod 4 \<noteq> 0 \<and> CHR ''='' \<in> set s
        \<longrightarrow> decodeBase64 s = new_Uint8Array 0)
   \<and> ((\<exists>e. atob s = Inl e) \<longrightarrow> decodeBase64 s = new_Uint8Array 0)"
proof -
  have x: "\<forall>x\<in>set (map unat bytes). x < 256"
    using byte_lt by auto
  have "map (\<lambda>c. of_nat (of_char c)) (map char_of (map unat bytes)) = bytes"
    using byte_lt by (simp add: map_idI)
  then have d: "decodeBase64 (rfc4648_encode bytes) =
      \<lparr>u8_buffer = bytes, u8_byteOffset = 0, u8_length = length bytes\<rparr>"
    using decodeBase64_decoded [OF atob_rfc4648_groups [OF x]] by (simp add: rfc4648_encode_def)
  have 1: "u8_bytes (decodeBase64 (rfc4648_encode bytes)) = bytes"
    and 2: "u8_length (decodeBase64 (rfc4648_encode bytes)) = length bytes"
    by (simp_all add: d u8_bytes_def)
  have 3: "rfc4648_valid (rfc4648_encode bytes)"
    using decode_body [OF x]
    by (simp add: rfc4648_valid_def rfc4648_encode_def length_rfc4648_groups
          strip_padding_rfc4648_groups [OF x] list_all_iff)
  have 4: "u8_bytes (decodeBase64 s) = bytes \<and> u8_length (decodeBase64 s) = length bytes"
    if "filter (\<lambda>c. \<not> is_ascii_whitespace c) s = rfc4648_encode bytes
        \<or> filter (\<lambda>c. \<not> is_ascii_whitespace c) s
            = filter (\<lambda>c. c \<noteq> CHR ''='') (rfc4648_encode bytes)"
    by (simp add: decodeBase64_forgiving [OF that] u8_bytes_def)
  have 5: "decodeBase64 s = decodeBase64 (filter (\<lambda>c. \<not> is_ascii_whitespace c) s)"
    by (rule decodeBase64_ignores_whitespace)
  have 6: "decodeBase64 s = new_Uint8Array 0"
    if "\<exists>c\<in>set s. b64_value c = None \<and> c \<noteq> CHR ''='' \<and> \<not> is_ascii_whitespace c"
    using that atob_invalid_character [of _ s] decodeBase64_failed [of s] by blast
  have 7: "decodeBase64 s = new_Uint8Array 0"
    if "length (filter (\<lambda>c. \<not> is_ascii_whitespace c) s) mod 4 = 1"
    using that atob_bad_length [of s] decodeBase64_failed [of s] by blast
  have 8: "decodeBase64 s = new_Uint8Array 0"
    if "length (filter (\<lambda>c. \<not> is_ascii_whitespace c) s) mod 4 \<noteq> 0 \<and> CHR ''='' \<in> set s"
    using that atob_stray_padding [of s] decodeBase64_failed [of s] by blast
  have 9: "decodeBase64 s = new_Uint8Array 0" if "\<exists>e. atob s = Inl e"
    using that decodeBase64_failed [of s] by blast
  from 1 2 3 4 5 6 7 8 9 show ?thesis
    by blast
qed

theorem decodeBase64_fail_soft_witness:
  "rfc4648_encode [72, 105] = ''SGk=''
   \<and> u8_bytes (decodeBase64 ''SGk='') = [72, 105]
   \<and> u8_bytes (decodeBase64 ''S G k'') = [72, 105]
   \<and> decodeBase64 ''SG!k'' = new_Uint8Array 0
   \<and> decodeBase64 ''Q'' = new_Uint8Array 0
   \<and> decodeBase64 ''QQ='' = new_Uint8Array 0"
proof -
  have e: "rfc4648_encode [72, 105] = ''SGk=''"
    by code_simp
  have f: "filter (\<lambda>c. \<not> is_ascii_whitespace c) ''S G k''
      = filter (\<lambda>c. c \<noteq> CHR ''='') (rfc4648_encode [72, 105])"
    unfolding e by (simp add: is_ascii_whitespace_def)
  have a: "\<exists>c\<in>set ''SG!k''. b64_value c = None \<and> c \<noteq> CHR ''='' \<and> \<not> is_ascii_whitespace c"
    by (simp add: b64_value_def is_ascii_whitespace_def)
  have b: "length (filter (\<lambda>c. \<not> is_ascii_whitespace c) ''Q'') mod 4 = 1"
    by (simp add: is_ascii_whitespace_def)
  have c: "length (filter (\<lambda>c. \<not> is_ascii_whitespace c) ''QQ='') mod 4 \<noteq> 0
      \<and> CHR ''='' \<in> set ''QQ=''"
    by (simp add: is_ascii_whitespace_def)
  have 1: "u8_bytes (decodeBase64 ''SGk='') = [72, 105]"
    using decodeBase64_fail_soft [of "[72, 105]" "[]"] unfolding e by (elim conjE)
  have 2: "decodeBase64 ''SG!k'' = new_Uint8Array 0"
    using decodeBase64_fail_soft [of "[]" "''SG!k''"] a by blast
  have 3: "decodeBase64 ''Q'' = new_Uint8Array 0"
    using decodeBase64_fail_soft [of "[]" "''Q''"] b by blast
  have 4: "decodeBase64 ''QQ='' = new_Uint8Array 0"
    using decodeBase64_fail_soft [of "[]" "''QQ=''"] c by blast
  have 5: "u8_bytes (decodeBase64 ''S G k'') = [72, 105]"
    using decodeBase64_fail_soft [of "[72, 105]" "''S G k''"] f by blast
  from e 1 2 3 4 5 show ?thesis
    by simp
qed

text \<open>
  The claim as stated (every string that is not valid base64 gives the empty array)
  fails for a string whose padding is missing and for one with whitespace inside:
  \<open>atob\<close> decodes both.
\<close>

theorem decodeBase64_accepts_unpadded:
  "\<not> rfc4648_valid ''QQ'' \<and> u8_bytes (decodeBase64 ''QQ'') = [65]
   \<and> \<not> rfc4648_valid ''Q Q=='' \<and> u8_bytes (decodeBase64 ''Q Q=='') = [65]"
proof -
  have "atob ''QQ'' = Inr ''A''" "atob ''Q Q=='' = Inr ''A''"
    by code_simp+
  then have "decodeBase64 ''QQ'' = \<lparr>u8_buffer = [65], u8_byteOffset = 0, u8_length = 1\<rparr>"
    "decodeBase64 ''Q Q=='' = \<lparr>u8_buffer = [65], u8_byteOffset = 0, u8_length = 1\<rparr>"
    by (simp_all add: decodeBase64_decoded)
  then show ?thesis
    by (simp add: rfc4648_valid_def u8_bytes_def)
qed

section \<open>Properties of the option shuffler\<close>

lemma shuffleArray_loop_inv:
  assumes "shuffled < length heap" and "i < length (heap ! shuffled) \<or> i = 0"
    and "\<forall>k. pick k \<le> k"
  shows "length (shuffleArray_loop pick shuffled i heap) = length heap
    \<and> (\<forall>b. b \<noteq> shuffled \<longrightarrow> shuffleArray_loop pick shuffled i heap ! b = heap ! b)
    \<and> mset (shuffleArray_loop pick shuffled i heap ! shuffled) = mset (heap ! shuffled)"
  using assms
proof (induction pick shuffled i heap rule: shuffleArray_loop.induct)
  case (1 pick shuffled i heap)
  show ?case
  proof (cases "0 < i")
    case False
    then show ?thesis by (simp add: shuffleArray_loop.simps)
  next
    case True
    define arr where "arr = heap ! shuffled"
    define j where "j = pick i"
    define heap' where "heap' = heap[shuffled := arr[i := arr ! j, j := arr ! i]]"
    have i: "i < length arr"
      using True "1.prems"(2) by (simp add: arr_def)
    have j: "j < length arr"
      using i "1.prems"(3) by (metis j_def le_less_trans)
    have m: "mset (heap' ! shuffled) = mset arr"
      using i j "1.prems"(1) by (simp add: heap'_def mset_swap)
    have l: "length (heap' ! shuffled) = length arr"
      using "1.prems"(1) by (simp add: heap'_def)
    have ih: "length (shuffleArray_loop pick shuffled (i - 1) heap') = length heap'
      \<and> (\<forall>b. b \<noteq> shuffled \<longrightarrow> shuffleArray_loop pick shuffled (i - 1) heap' ! b = heap' ! b)
      \<and> mset (shuffleArray_loop pick shuffled (i - 1) heap' ! shuffled) = mset (heap' ! shuffled)"
    proof -
      have "i - 1 < length arr"
        using i by simp
      then show ?thesis
        using "1.IH" [OF True j_def arr_def] "1.prems"(1,3) l
        by (simp add: heap'_def)
    qed
    have step: "shuffleArray_loop pick shuffled i heap = shuffleArray_loop pick shuffled (i - 1) heap'"
      using True by (subst shuffleArray_loop.simps) (simp add: Let_def heap'_def arr_def j_def)
    show ?thesis
      using ih m by (simp add: step heap'_def arr_def)
  qed
qed

text \<open>
  C10. For every input array and every outcome of the random choices (each within its
  range), \<open>shuffleArray\<close> returns a new array, different from every array that existed,
  that has the elements of the input with the same multiplicities and the same length;
  the input array and every other array are left as they were.
\<close>

theorem shuffleArray_permutation:
  assumes "array < length heap" and "\<forall>i. pick i \<le> i"
  shows "fst (shuffleArray pick array heap) = length heap
    \<and> fst (shuffleArray pick array heap) \<noteq> array
    \<and> length (snd (shuffleArray pick array heap)) = length heap + 1
    \<and> (\<forall>a < length heap. snd (shuffleArray pick array heap) ! a = heap ! a)
    \<and> mset (snd (shuffleArray pick array heap) ! fst (shuffleArray pick array heap))
        = mset (heap ! array)
    \<and> length (snd (shuffleArray pick array heap) ! fst (shuffleArray pick array heap))
        = length (heap ! array)"
proof -
  define heap1 where "heap1 = heap @ [heap ! array]"
  define n where "n = length heap"
  have r: "shuffleArray pick array heap
      = (n, shuffleArray_loop pick n (length (heap1 ! n) - 1) heap1)"
    by (simp add: shuffleArray_def Let_def heap1_def n_def)
  have c: "heap1 ! n = heap ! array"
    by (simp add: heap1_def n_def)
  have inv: "length (shuffleArray_loop pick n (length (heap1 ! n) - 1) heap1) = length heap1
    \<and> (\<forall>b. b \<noteq> n \<longrightarrow> shuffleArray_loop pick n (length (heap1 ! n) - 1) heap1 ! b = heap1 ! b)
    \<and> mset (shuffleArray_loop pick n (length (heap1 ! n) - 1) heap1 ! n) = mset (heap1 ! n)"
    using assms(2) by (intro shuffleArray_loop_inv) (auto simp: heap1_def n_def)
  have old: "snd (shuffleArray pick array heap) ! a = heap ! a" if "a < length heap" for a
    using that inv by (simp add: r) (simp add: heap1_def n_def nth_append)
  have m: "mset (snd (shuffleArray pick array heap) ! n) = mset (heap ! array)"
    using inv c unfolding r by simp
  then have "size (mset (snd (shuffleArray pick array heap) ! n)) = size (mset (heap ! array))"
    by simp
  then have l: "length (snd (shuffleArray pick array heap) ! n) = length (heap ! array)"
    by simp
  show ?thesis
    using assms(1) inv old m l unfolding r by (simp add: heap1_def n_def)
qed

theorem shuffleArray_permutation_witness:
  "(0::nat) < length [[1, 2, 3 :: nat]]
   \<and> shuffleArray (\<lambda>i. 0) 0 [[1, 2, 3 :: nat]] = (1, [[1, 2, 3], [2, 3, 1]])
   \<and> mset [2, 3, 1 :: nat] = mset [1, 2, 3]"
proof -
  have e: "shuffleArray (\<lambda>i. 0) 0 [[1, 2, 3 :: nat]] = (1, [[1, 2, 3], [2, 3, 1]])"
    by (simp add: shuffleArray_def Let_def numeral_2_eq_2 shuffleArray_loop.simps)
  have p: "(0::nat) < length [[1, 2, 3 :: nat]]"
    by simp
  have q: "\<forall>i. (\<lambda>i::nat. 0::nat) i \<le> i"
    by simp
  from shuffleArray_permutation [OF p q]
  have "mset (snd (shuffleArray (\<lambda>i. 0) 0 [[1, 2, 3 :: nat]])
            ! fst (shuffleArray (\<lambda>i. 0) 0 [[1, 2, 3 :: nat]])) = mset ([[1, 2, 3 :: nat]] ! 0)"
    by (elim conjE)
  then have "mset [2, 3, 1 :: nat] = mset [1, 2, 3]"
    unfolding e by simp
  with e p show ?thesis
    by simp
qed

end
